theory Spec2Isabelle
  imports Complex_Main "HOL-Library.Word" "HOL-Library.Signed_Division" "HOL-Library.AList"
begin

section \<open>The mesh partitioner group of Inciter (src/Inciter/Partitioner.h)\<close>

text \<open>
  One \<open>Partitioner\<close> object lives on every processing element (PE). Its member
  functions are entry methods that run to completion; they read and update the
  object's fields and send messages to the objects on other PEs. The embedding
  passes the object explicitly as a record and returns, next to the updated
  object, the list of effects (messages, SDAG triggers, signals to the host) in
  the order the code issues them.

  Conventions of the embedding:
  \<^item> \<open>std::size_t\<close> values (node IDs, counters) are natural numbers; \<open>++\<close> and
    \<open>+=\<close> on the node-ID counter \<open>n\<close>, on \<open>m_reordered\<close> and on \<open>m_upper\<close> wrap
    around at \<open>2^64\<close> (\<open>wrap64\<close>); the two counters of \<open>cost\<close> count entries of a vector in
    memory and cannot reach \<open>2^64\<close>;
  \<^item> \<open>int\<close> values (PE ranks, chare IDs) are integers; \<open>/\<close> and \<open>%\<close> on them
    truncate towards zero (\<open>sdiv\<close>, \<open>smod\<close>) and fail on a zero divisor;
  \<^item> \<open>static_cast<int>\<close> of a \<open>std::size_t\<close> keeps the low 32 bits, read signed;
  \<^item> \<open>std::unordered_map\<close> and \<open>std::set\<close> are association lists and lists; a
    lookup is \<open>map_of\<close>, \<open>m[k] = v\<close> is \<open>AList.update k v m\<close>; the order of the
    list stands for the iteration order of the map, which the code leaves open;
  \<^item> a failed \<open>Assert\<close>, a failed \<open>ErrChk\<close>, a division by zero, a missing key in
    \<open>tk::val_find\<close> and the dereference of an end iterator are values of \<open>error\<close>.
\<close>

datatype error =
    AssertFailed
  | Overdecomposition
  | DivisionByZero
  | KeyNotFound
  | EndDereferenced

datatype msg =
    Request int "nat list"
  | Neworder "(nat \<times> nat) list"
  | Lower nat

datatype sdag =
    Wait4prep
  | Wait4bounds
  | Trigger_reorderowned_complete
  | Trigger_nodes_requested
  | Trigger_upper
  | Trigger_lower

datatype host_signal =
    Flatten_complete
  | Addnodes int "nat list"

datatype effect =
    Send int msg
  | Sdag sdag
  | Signal2host host_signal

record partitioner =
  CkMyPe :: int
  CkNumPes :: int
  m_req :: "(int \<times> nat list) list"
  m_reordered :: nat
  m_tetinpoel :: "nat list"
  m_gelemid :: "nat list"
  m_nchare :: int
  m_lower :: nat
  m_upper :: nat
  m_node :: "(int \<times> nat list) list"
  m_id :: "nat list"
  m_newid :: "(nat \<times> nat) list"
  m_chcid :: "(int \<times> (nat \<times> nat) list) list"

text \<open>
  The record holds the rank of the PE and the number of PEs (\<open>CkMyPe()\<close>,
  \<open>CkNumPes()\<close>) next to the data members the functions below use. The proxies,
  the acknowledgement counter \<open>m_npe\<close> of the distribution phase, the element
  centroids and the stored cost \<open>m_cost\<close> are left out.

  \<open>new_partitioner\<close> is the object as the constructor leaves it on PE \<open>mype\<close> of
  \<open>npes\<close>, before the mesh graph is read: \<open>m_reordered\<close> is initialised to 0 and
  the containers are empty. The scalars the constructor leaves uninitialised are
  set to 0 here.
\<close>

definition new_partitioner :: "int \<Rightarrow> int \<Rightarrow> partitioner" where
  "new_partitioner mype npes =
     \<lparr>CkMyPe = mype, CkNumPes = npes, m_req = [], m_reordered = 0,
      m_tetinpoel = [], m_gelemid = [], m_nchare = 0, m_lower = 0, m_upper = 0,
      m_node = [], m_id = [], m_newid = [], m_chcid = []\<rparr>"

subsection \<open>Integer helpers\<close>

definition c_div :: "int \<Rightarrow> int \<Rightarrow> error + int" where
  "c_div a b = (if b = 0 then Inl DivisionByZero else Inr (a sdiv b))"

definition c_mod :: "int \<Rightarrow> int \<Rightarrow> error + int" where
  "c_mod a b = (if b = 0 then Inl DivisionByZero else Inr (a smod b))"

definition wrap64 :: "nat \<Rightarrow> nat" where
  "wrap64 x = unat (word_of_nat x :: 64 word)"

definition to_int :: "nat \<Rightarrow> int" where
  "to_int x = sint (word_of_nat x :: 32 word)"

subsection \<open>Helpers of Base/ContainerUtil.h\<close>

text \<open>
  Modelled from the spec: \<open>tk::val_find\<close> and \<open>tk::unique\<close> are declared in
  ContainerUtil.h, which is not among the sources. \<open>val_find\<close> returns the value
  stored under a key and fails when the key is absent; \<open>unique\<close> sorts a vector
  and removes repeated entries (the local unique old-ID set of the spec).
\<close>

definition val_find :: "('k \<times> 'v) list \<Rightarrow> 'k \<Rightarrow> error + 'v" where
  "val_find m k = (case map_of m k of None \<Rightarrow> Inl KeyNotFound | Some v \<Rightarrow> Inr v)"

definition unique :: "nat list \<Rightarrow> nat list" where
  "unique xs = remdups_adj (sort xs)"

subsection \<open>The linear distribution of chares: \<open>chareDistribution\<close> and \<open>pe\<close>\<close>

definition chareDistribution :: "partitioner \<Rightarrow> error + (int \<times> int)" where
  "chareDistribution s =
     (case c_div (m_nchare s) (CkNumPes s) of
        Inl e \<Rightarrow> Inl e
      | Inr chunksize \<Rightarrow>
          if CkMyPe s = CkNumPes s - 1
          then (case c_mod (m_nchare s) (CkNumPes s) of
                  Inl e \<Rightarrow> Inl e
                | Inr r \<Rightarrow> Inr (chunksize, chunksize + r))
          else Inr (chunksize, chunksize))"

definition pe :: "partitioner \<Rightarrow> int \<Rightarrow> error + int" where
  "pe s ident =
     (case c_div (m_nchare s) (CkNumPes s) of
        Inl e \<Rightarrow> Inl e
      | Inr chunk \<Rightarrow>
          (case c_div ident chunk of
             Inl e \<Rightarrow> Inl e
           | Inr p \<Rightarrow>
               (let p' = (if p \<ge> CkNumPes s then CkNumPes s - 1 else p)
                in if p' < CkNumPes s then Inr p' else Inl AssertFailed)))"

text \<open>
  The distribution function as the specification words it:
  \<open>owner(unitID) = unitID / ceil(nUnits/nProcesses)\<close>.
\<close>

definition spec_owner :: "int \<Rightarrow> int \<Rightarrow> int \<Rightarrow> int" where
  "spec_owner nUnits nProcesses unitID =
     unitID div ((nUnits + nProcesses - 1) div nProcesses)"

subsection \<open>\<open>chareNodes\<close>: node IDs of the elements of each chare\<close>

definition element_nodes :: "nat list \<Rightarrow> nat \<Rightarrow> nat list" where
  "element_nodes tetinpoel e = map (\<lambda>n. tetinpoel ! (e * 4 + n)) [0..<4]"

definition nodes_at :: "(int \<times> nat list) list \<Rightarrow> int \<Rightarrow> nat list" where
  "nodes_at nodes k = (case map_of nodes k of None \<Rightarrow> [] | Some c \<Rightarrow> c)"

definition categorize ::
  "nat list \<Rightarrow> nat list \<Rightarrow> nat \<Rightarrow> (int \<times> nat list) list \<Rightarrow> (int \<times> nat list) list" where
  "categorize tetinpoel che e nodes =
     (let k = to_int (che ! e)
      in AList.update k (nodes_at nodes k @ element_nodes tetinpoel e) nodes)"

definition chareNodes :: "partitioner \<Rightarrow> nat list \<Rightarrow> error + (int \<times> nat list) list" where
  "chareNodes s che =
     (if length che \<noteq> length (m_gelemid s) then Inl AssertFailed
      else if length che \<noteq> length (m_tetinpoel s) div 4 then Inl AssertFailed
      else
        (let nodes = fold (categorize (m_tetinpoel s) che) [0..<length che] []
         in if nodes = [] then Inl AssertFailed
            else if list_ex (\<lambda>c. snd c = []) nodes then Inl Overdecomposition
            else Inr nodes))"

subsection \<open>\<open>flatten\<close>: the unique node IDs of this PE\<close>

definition flatten :: "partitioner \<Rightarrow> error + (partitioner \<times> effect list)" where
  "flatten s =
     (case chareDistribution s of
        Inl e \<Rightarrow> Inl e
      | Inr (chunksize, mynchare) \<Rightarrow>
          if int (length (m_node s)) \<noteq> mynchare then Inl AssertFailed
          else
            (let ids = unique (m_id s @ concat (map snd (m_node s)))
             in Inr (s\<lparr>m_id := ids\<rparr>,
                     [Signal2host Flatten_complete,
                      Signal2host (Addnodes (CkMyPe s) ids)])))"

subsection \<open>\<open>lower\<close> and \<open>bounds\<close>\<close>

definition lower :: "nat \<Rightarrow> partitioner \<Rightarrow> partitioner \<times> effect list" where
  "lower low s = (s\<lparr>m_lower := low\<rparr>, [Sdag Trigger_lower])"

text \<open>
  \<open>std::max_element\<close> with the comparison on keys: the first largest entry, and
  the end iterator on an empty range, which \<open>bounds\<close> then dereferences.
\<close>

definition max_element :: "(nat \<times> nat) list \<Rightarrow> error + (nat \<times> nat)" where
  "max_element m =
     (case m of
        [] \<Rightarrow> Inl EndDereferenced
      | x # rest \<Rightarrow>
          Inr (fold (\<lambda>it largest. if fst largest < fst it then it else largest) rest x))"

fun bounds_loop :: "(int \<times> (nat \<times> nat) list) list \<Rightarrow> nat \<Rightarrow> error + nat" where
  "bounds_loop [] upper = Inr upper"
| "bounds_loop (c # cs) upper =
     (case max_element (snd c) of
        Inl e \<Rightarrow> Inl e
      | Inr x \<Rightarrow> bounds_loop cs (if fst x > upper then fst x else upper))"

definition bounds :: "partitioner \<Rightarrow> error + (partitioner \<times> effect list)" where
  "bounds s =
     (case bounds_loop (m_chcid s) 0 of
        Inl e \<Rightarrow> Inl e
      | Inr u \<Rightarrow>
          (let s1 = s\<lparr>m_upper := (if CkMyPe s = CkNumPes s - 1 then wrap64 (u + 1) else u)\<rparr>;
               r = (if CkMyPe s1 = 0 then lower 0 s1 else (s1, []));
               s2 = fst r
           in Inr (s2,
                [Sdag Trigger_upper] @ snd r @
                (if CkMyPe s2 < CkNumPes s2 - 1
                 then [Send (CkMyPe s2 + 1) (Lower (m_upper s2))] else []))))"

subsection \<open>\<open>reordered\<close>: the per-chare inverse maps\<close>

fun chcid_chare :: "(nat \<times> nat) list \<Rightarrow> nat list \<Rightarrow> (nat \<times> nat) list \<Rightarrow> error + (nat \<times> nat) list" where
  "chcid_chare newid [] m = Inr m"
| "chcid_chare newid (p # ps) m =
     (case val_find newid p of
        Inl e \<Rightarrow> Inl e
      | Inr v \<Rightarrow> chcid_chare newid ps (AList.update v p m))"

definition chcid_at :: "(int \<times> (nat \<times> nat) list) list \<Rightarrow> int \<Rightarrow> (nat \<times> nat) list" where
  "chcid_at chcid c = (case map_of chcid c of None \<Rightarrow> [] | Some m \<Rightarrow> m)"

fun chcid_loop ::
  "(nat \<times> nat) list \<Rightarrow> (int \<times> nat list) list \<Rightarrow> (int \<times> (nat \<times> nat) list) list \<Rightarrow>
   error + (int \<times> (nat \<times> nat) list) list" where
  "chcid_loop newid [] chcid = Inr chcid"
| "chcid_loop newid (c # cs) chcid =
     (case chcid_chare newid (snd c) (chcid_at chcid (fst c)) of
        Inl e \<Rightarrow> Inl e
      | Inr m \<Rightarrow> chcid_loop newid cs (AList.update (fst c) m chcid))"

fun renumber :: "(nat \<times> nat) list \<Rightarrow> nat list \<Rightarrow> error + nat list" where
  "renumber newid [] = Inr []"
| "renumber newid (p # ps) =
     (case val_find newid p of
        Inl e \<Rightarrow> Inl e
      | Inr v \<Rightarrow> (case renumber newid ps of Inl e \<Rightarrow> Inl e | Inr vs \<Rightarrow> Inr (v # vs)))"

fun renumber_node :: "(nat \<times> nat) list \<Rightarrow> (int \<times> nat list) list \<Rightarrow> error + (int \<times> nat list) list" where
  "renumber_node newid [] = Inr []"
| "renumber_node newid (c # cs) =
     (case renumber newid (snd c) of
        Inl e \<Rightarrow> Inl e
      | Inr vs \<Rightarrow>
          (case renumber_node newid cs of
             Inl e \<Rightarrow> Inl e
           | Inr cs' \<Rightarrow> Inr ((fst c, vs) # cs')))"

definition reordered :: "partitioner \<Rightarrow> error + (partitioner \<times> effect list)" where
  "reordered s =
     (case chcid_loop (m_newid s) (m_node s) (m_chcid s) of
        Inl e \<Rightarrow> Inl e
      | Inr chcid \<Rightarrow>
          (case renumber_node (m_newid s) (m_node s) of
             Inl e \<Rightarrow> Inl e
           | Inr node \<Rightarrow>
               (case renumber (m_newid s) (m_id s) of
                  Inl e \<Rightarrow> Inl e
                | Inr ids \<Rightarrow> bounds (s\<lparr>m_chcid := chcid, m_node := node, m_id := ids\<rparr>))))"

subsection \<open>\<open>reorder\<close>, \<open>request\<close>, \<open>neworder\<close> and \<open>prepare\<close>\<close>

text \<open>
  Iterators of a container are positions in its list; \<open>std::any_of\<close> tests the
  entries from its first iterator up to, not including, its second.
\<close>

definition cbegin :: "'a list \<Rightarrow> nat" where
  "cbegin xs = 0"

definition cend :: "'a list \<Rightarrow> nat" where
  "cend xs = length xs"

definition any_of :: "'a list \<Rightarrow> nat \<Rightarrow> nat \<Rightarrow> ('a \<Rightarrow> bool) \<Rightarrow> bool" where
  "any_of xs i j P = list_ex P (take (j - i) (drop i xs))"

definition own :: "(int \<times> nat list) list \<Rightarrow> nat \<Rightarrow> bool" where
  "own comm p =
     (\<not> any_of comm (cbegin comm) (cbegin comm)
          (\<lambda>s. if List.member (snd s) p then True else False))"

fun assign_loop ::
  "(nat \<Rightarrow> bool) \<Rightarrow> nat list \<Rightarrow> nat \<Rightarrow> (nat \<times> nat) list \<Rightarrow> nat \<Rightarrow> nat \<times> (nat \<times> nat) list \<times> nat" where
  "assign_loop ownp [] n newid r = (n, newid, r)"
| "assign_loop ownp (p # ps) n newid r =
     (if ownp p
      then assign_loop ownp ps (wrap64 (n + 1)) (AList.update p n newid) (wrap64 (r + 1))
      else assign_loop ownp ps n newid r)"

definition reorder ::
  "nat \<Rightarrow> (int \<times> nat list) list \<Rightarrow> partitioner \<Rightarrow> error + (partitioner \<times> effect list)" where
  "reorder n comm s =
     (let requests = map (\<lambda>c. Send (fst c) (Request (CkMyPe s) (snd c))) comm;
          a = assign_loop (own comm) (m_id s) n (m_newid s) (m_reordered s);
          s1 = s\<lparr>m_newid := fst (snd a), m_reordered := snd (snd a)\<rparr>;
          eff = [Sdag Wait4prep, Sdag Wait4bounds] @ requests @
                [Sdag Trigger_reorderowned_complete]
      in if m_reordered s1 = length (m_id s1)
         then (case reordered s1 of
                 Inl e \<Rightarrow> Inl e
               | Inr (s2, eff2) \<Rightarrow> Inr (s2, eff @ eff2))
         else Inr (s1, eff))"

definition request :: "int \<Rightarrow> nat list \<Rightarrow> partitioner \<Rightarrow> partitioner \<times> effect list" where
  "request frompe ident s =
     (s\<lparr>m_req := m_req s @ [(frompe, ident)]\<rparr>, [Sdag Trigger_nodes_requested])"

definition neworder :: "(nat \<times> nat) list \<Rightarrow> partitioner \<Rightarrow> error + (partitioner \<times> effect list)" where
  "neworder ident s =
     (let s1 = s\<lparr>m_newid := fold (\<lambda>p m. AList.update (fst p) (snd p) m) ident (m_newid s),
                 m_reordered := wrap64 (m_reordered s + length ident)\<rparr>
      in if m_reordered s1 = length (m_id s1) then reordered s1 else Inr (s1, []))"

fun reply :: "(nat \<times> nat) list \<Rightarrow> nat list \<Rightarrow> (nat \<times> nat) list \<Rightarrow> error + (nat \<times> nat) list" where
  "reply newid [] n = Inr n"
| "reply newid (p # ps) n =
     (case val_find newid p of
        Inl e \<Rightarrow> Inl e
      | Inr v \<Rightarrow> reply newid ps (AList.update p v n))"

fun prepare_loop :: "(nat \<times> nat) list \<Rightarrow> (int \<times> nat list) list \<Rightarrow> error + effect list" where
  "prepare_loop newid [] = Inr []"
| "prepare_loop newid (r # rs) =
     (case reply newid (snd r) [] of
        Inl e \<Rightarrow> Inl e
      | Inr n \<Rightarrow>
          (case prepare_loop newid rs of
             Inl e \<Rightarrow> Inl e
           | Inr eff \<Rightarrow> Inr (Send (fst r) (Neworder n) # eff)))"

definition prepare :: "partitioner \<Rightarrow> error + (partitioner \<times> effect list)" where
  "prepare s =
     (case prepare_loop (m_newid s) (m_req s) of
        Inl e \<Rightarrow> Inl e
      | Inr eff \<Rightarrow>
          Inr (s\<lparr>m_req := []\<rparr>,
               eff @ [Sdag Wait4prep, Sdag Trigger_reorderowned_complete]))"


subsection \<open>\<open>cost\<close>: the communication cost of a PE\<close>








subsection \<open>Auxiliary predicates and example objects\<close>

text \<open>Every node list of a grouping holds the four node IDs of one or more elements.\<close>

definition groups_ok :: "(int \<times> nat list) list \<Rightarrow> bool" where
  "groups_ok nodes = list_all (\<lambda>c. 4 \<le> length (snd c) \<and> 4 dvd length (snd c)) nodes"

text \<open>
  A mesh of two tetrahedra sharing a face, nodes 0 to 4, read by one PE, and the
  same mesh after distribution to two PEs with one chare each: chare 0 on PE 0
  holds the first tetrahedron, chare 1 on PE 1 the second. Nodes 1, 2 and 3 are
  shared; the communication map of PE 1 lists them under PE 0.
\<close>

definition two_tets :: partitioner where
  "two_tets = (new_partitioner 0 1)
     \<lparr>m_tetinpoel := [0, 1, 2, 3, 1, 2, 3, 4], m_gelemid := [0, 1], m_nchare := 2\<rparr>"

definition pe0_flat :: partitioner where
  "pe0_flat = (new_partitioner 0 2)
     \<lparr>m_nchare := 2, m_node := [(0, [0, 1, 2, 3])], m_id := [0, 1, 2, 3]\<rparr>"

definition pe1_flat :: partitioner where
  "pe1_flat = (new_partitioner 1 2)
     \<lparr>m_nchare := 2, m_node := [(1, [1, 2, 3, 4])], m_id := [1, 2, 3, 4]\<rparr>"


definition pe1_comm :: "(int \<times> nat list) list" where
  "pe1_comm = [(0, [1, 2, 3])]"

text \<open>
  The inverse map \<open>m\<close> of a chare undoes the renumbering \<open>newid\<close> on the old IDs
  \<open>S\<close>.
\<close>

definition roundtrip :: "(nat \<times> nat) list \<Rightarrow> (nat \<times> nat) list \<Rightarrow> nat set \<Rightarrow> bool" where
  "roundtrip newid m S = (\<forall>p \<in> S. \<exists>v. map_of newid p = Some v \<and> map_of m v = Some p)"

text \<open>
  The two PEs after the assignment loop of \<open>reorder\<close>, started at 0 on PE 0 and at
  4 on PE 1, and after \<open>reordered\<close>.
\<close>

definition pe0_assigned :: partitioner where
  "pe0_assigned = pe0_flat\<lparr>m_newid := [(0, 0), (1, 1), (2, 2), (3, 3)], m_reordered := 4\<rparr>"

definition pe1_assigned :: partitioner where
  "pe1_assigned = pe1_flat\<lparr>m_newid := [(1, 4), (2, 5), (3, 6), (4, 7)], m_reordered := 4\<rparr>"

definition pe0_done :: partitioner where
  "pe0_done = pe0_assigned
     \<lparr>m_chcid := [(0, [(0, 0), (1, 1), (2, 2), (3, 3)])], m_upper := 3, m_lower := 0\<rparr>"

definition pe1_done :: partitioner where
  "pe1_done = pe1_assigned
     \<lparr>m_chcid := [(1, [(4, 1), (5, 2), (6, 3), (7, 4)])], m_node := [(1, [4, 5, 6, 7])],
      m_id := [4, 5, 6, 7], m_upper := 8\<rparr>"

text \<open>
  The new node IDs among the nodes the chares of a PE contribute to (the keys of
  its inverse maps), and the messages among a list of effects.
\<close>

definition contributed_newids :: "partitioner \<Rightarrow> nat list" where
  "contributed_newids s = concat (map (\<lambda>c. map fst (snd c)) (m_chcid s))"




text \<open>The effects of \<open>reorder\<close> before it tests whether all IDs are reordered.\<close>

definition reorder_effects :: "(int \<times> nat list) list \<Rightarrow> partitioner \<Rightarrow> effect list" where
  "reorder_effects comm s =
     [Sdag Wait4prep, Sdag Wait4bounds] @
     map (\<lambda>c. Send (fst c) (Request (CkMyPe s) (snd c))) comm @
     [Sdag Trigger_reorderowned_complete]"

section \<open>Properties\<close>

subsection \<open>The linear distribution\<close>

lemma sdiv_nonneg: "0 \<le> a \<Longrightarrow> 0 < b \<Longrightarrow> a sdiv b = a div (b::int)"
  by (cases "a = 0") (simp_all add: signed_divide_int_def)

lemma smod_nonneg: "0 \<le> a \<Longrightarrow> 0 < b \<Longrightarrow> a smod b = a mod (b::int)"
  by (cases "a = 0") (simp_all add: signed_modulo_int_def)

lemma chunk_pos: "1 \<le> n \<Longrightarrow> n \<le> c \<Longrightarrow> 1 \<le> c div (n::int)"
  using pos_imp_zdiv_pos_iff[of n c] by simp

lemma div_less_bound:
  assumes "1 \<le> q" "u < n * q"
  shows "u div q < (n::int)"
proof (rule ccontr)
  assume "\<not> u div q < n"
  then have "n * q \<le> (u div q) * q" using assms by (simp add: mult_right_mono)
  moreover have "(u div q) * q + u mod q = u" by simp
  moreover have "0 \<le> u mod q" using assms by simp
  ultimately show False using assms by linarith
qed

lemma pe_floor:
  assumes "1 \<le> CkNumPes s" "CkNumPes s \<le> m_nchare s" "0 \<le> u"
  shows "pe s u = Inr (min (u div (m_nchare s div CkNumPes s)) (CkNumPes s - 1))"
proof -
  have c: "m_nchare s sdiv CkNumPes s = m_nchare s div CkNumPes s"
    using assms by (simp add: sdiv_nonneg)
  have p: "1 \<le> m_nchare s div CkNumPes s"
    using assms by (simp add: chunk_pos)
  have d: "u sdiv (m_nchare s div CkNumPes s) = u div (m_nchare s div CkNumPes s)"
    using assms p by (simp add: sdiv_nonneg)
  show ?thesis
    using assms p by (simp add: pe_def c_div_def c d Let_def min_def)
qed

lemma ceil_exact:
  assumes "1 \<le> (n::int)" "n dvd c"
  shows "(c + n - 1) div n = c div n"
proof -
  from assms obtain k where k: "c = n * k" by (auto simp: dvd_def)
  have "(n * k + (n - 1)) div n = k + (n - 1) div n"
    using assms by (simp add: div_mult_self4)
  also have "(n - 1) div n = 0" using assms by (simp add: div_pos_pos_trivial)
  finally show ?thesis using assms k by (simp add: algebra_simps)
qed

lemma pe_spec_when_divisible:
  assumes "1 \<le> CkNumPes s" "CkNumPes s \<le> m_nchare s" "0 \<le> u" "u < m_nchare s"
    "CkNumPes s dvd m_nchare s"
  shows "pe s u = Inr (spec_owner (m_nchare s) (CkNumPes s) u)"
proof -
  let ?n = "CkNumPes s" and ?c = "m_nchare s"
  have p: "1 \<le> ?c div ?n" using assms by (simp add: chunk_pos)
  have e: "?c = (?c div ?n) * ?n" using assms by simp
  have "u < (?c div ?n) * ?n" using assms e by simp
  then have "u div (?c div ?n) < ?n"
    using p by (simp add: div_less_bound mult.commute)
  then have "min (u div (?c div ?n)) (?n - 1) = u div (?c div ?n)" by simp
  then show ?thesis
    using assms by (simp add: pe_floor spec_owner_def ceil_exact)
qed

lemma pe_div_zero:
  assumes "1 \<le> CkNumPes s" "0 \<le> m_nchare s" "m_nchare s < CkNumPes s"
  shows "pe s u = Inl DivisionByZero"
proof -
  have "m_nchare s sdiv CkNumPes s = 0"
    using assms by (simp add: sdiv_nonneg div_pos_pos_trivial)
  then show ?thesis using assms by (simp add: pe_def c_div_def)
qed

lemma pe_in_range:
  assumes "1 \<le> CkNumPes s" "CkNumPes s \<le> m_nchare s" "0 \<le> u"
  shows "\<exists>p. pe s u = Inr p \<and> 0 \<le> p \<and> p < CkNumPes s"
proof -
  have p: "1 \<le> m_nchare s div CkNumPes s" using assms by (simp add: chunk_pos)
  have "0 \<le> u div (m_nchare s div CkNumPes s)"
    using assms p by (simp add: pos_imp_zdiv_nonneg_iff)
  then show ?thesis using assms by (simp add: pe_floor min_def)
qed

lemma chareDistribution_total:
  assumes "1 \<le> CkNumPes s" "0 \<le> m_nchare s"
  shows "chareDistribution s =
     Inr (m_nchare s div CkNumPes s,
          if CkMyPe s = CkNumPes s - 1
          then m_nchare s div CkNumPes s + m_nchare s mod CkNumPes s
          else m_nchare s div CkNumPes s)"
  using assms
  by (simp add: chareDistribution_def c_div_def c_mod_def sdiv_nonneg smod_nonneg)

text \<open>
  The chares that \<open>distribute\<close> and \<open>create\<close> count as owned by a PE, those with the
  IDs \<open>CkMyPe() * chunksize + c\<close> for \<open>c < mynchare\<close>, are chares that \<open>pe\<close> sends to
  that PE.
\<close>

lemma pe_owned_chare:
  assumes "1 \<le> CkNumPes s" "CkNumPes s \<le> m_nchare s" "0 \<le> CkMyPe s" "CkMyPe s < CkNumPes s"
    and "chareDistribution s = Inr (chunksize, mynchare)" "0 \<le> c" "c < mynchare"
  shows "pe s (CkMyPe s * chunksize + c) = Inr (CkMyPe s)"
proof -
  let ?q = "m_nchare s div CkNumPes s"
  have q: "1 \<le> ?q" using assms by (simp add: chunk_pos)
  have cd: "chunksize = ?q"
      "mynchare = (if CkMyPe s = CkNumPes s - 1 then ?q + m_nchare s mod CkNumPes s else ?q)"
    using assms(1,2,5) by (simp_all add: chareDistribution_total)
  have nn: "0 \<le> CkMyPe s * ?q + c" using assms q by simp
  have d: "(CkMyPe s * ?q + c) div ?q = CkMyPe s + c div ?q"
    using q by (simp add: add.commute)
  have "min (CkMyPe s + c div ?q) (CkNumPes s - 1) = CkMyPe s"
  proof (cases "CkMyPe s = CkNumPes s - 1")
    case True
    have "0 \<le> c div ?q" using assms(6) q by (simp add: pos_imp_zdiv_nonneg_iff)
    then show ?thesis using True by simp
  next
    case False
    then have "c < ?q" using assms(7) cd by simp
    then have "c div ?q = 0" using assms(6) by simp
    then show ?thesis using assms(4) by simp
  qed
  then show ?thesis
    using pe_floor [OF assms(1,2) nn] by (simp add: cd d)
qed

text \<open>
  C4, as stated: \<open>pe(u) = u / ceil(nUnits/nProcesses)\<close> for every unit. It fails for
  7 units on 3 processes: the code sends unit 2 to PE 1 (the documented
  distribution PE0: 0 1, PE1: 2 3, PE2: 4 5 6), the formula of the specification
  to PE 0.
\<close>

theorem pe_differs_from_spec_owner:
  "pe ((new_partitioner 0 3)\<lparr>m_nchare := 7\<rparr>) 2 = Inr 1 \<and> spec_owner 7 3 2 = 0"
  by (simp add: pe_def c_div_def new_partitioner_def spec_owner_def signed_divide_int_def)

text \<open>
  C4, amended: for every unit \<open>u\<close> in \<open>[0, nUnits)\<close> with
  \<open>nUnits \<ge> nProcesses \<ge> 1\<close>, \<open>pe(u)\<close> is \<open>u / floor(nUnits/nProcesses)\<close> capped at
  the last process \<open>nProcesses - 1\<close>, which so absorbs the remainder; it agrees
  with \<open>owner(unitID) = unitID / ceil(nUnits/nProcesses)\<close> whenever \<open>nProcesses\<close>
  divides \<open>nUnits\<close>.
\<close>

theorem pe_linear_distribution:
  assumes "1 \<le> CkNumPes s" "CkNumPes s \<le> m_nchare s" "0 \<le> u" "u < m_nchare s"
  shows "pe s u = Inr (min (u div (m_nchare s div CkNumPes s)) (CkNumPes s - 1)) \<and>
         (CkNumPes s dvd m_nchare s \<longrightarrow>
            pe s u = Inr (spec_owner (m_nchare s) (CkNumPes s) u))"
proof (intro conjI impI)
  show "pe s u = Inr (min (u div (m_nchare s div CkNumPes s)) (CkNumPes s - 1))"
    using assms by (rule_tac pe_floor)
next
  assume "CkNumPes s dvd m_nchare s"
  with assms show "pe s u = Inr (spec_owner (m_nchare s) (CkNumPes s) u)"
    by (rule pe_spec_when_divisible)
qed

theorem pe_linear_distribution_witness:
  "pe ((new_partitioner 0 3)\<lparr>m_nchare := 7\<rparr>) 6 = Inr 2 \<and>
   pe ((new_partitioner 0 3)\<lparr>m_nchare := 6\<rparr>) 5 = Inr (spec_owner 6 3 5) \<and>
   spec_owner 6 3 5 = 2"
  using pe_linear_distribution [of "(new_partitioner 0 3)\<lparr>m_nchare := 7\<rparr>" 6]
    pe_linear_distribution [of "(new_partitioner 0 3)\<lparr>m_nchare := 6\<rparr>" 5]
  by (simp add: new_partitioner_def spec_owner_def)

text \<open>
  C10, as stated: both \<open>pe\<close> and \<open>chareDistribution\<close> are total only when
  \<open>m_nchare \<ge> CkNumPes()\<close>. \<open>chareDistribution\<close> divides by \<open>CkNumPes()\<close> only, and
  returns for one chare on two PEs: chunk size 0, and the one chare on the last PE.
\<close>

theorem chareDistribution_total_with_few_chares:
  "m_nchare ((new_partitioner 1 2)\<lparr>m_nchare := 1\<rparr>) < CkNumPes ((new_partitioner 1 2)\<lparr>m_nchare := 1\<rparr>) \<and>
   chareDistribution ((new_partitioner 1 2)\<lparr>m_nchare := 1\<rparr>) = Inr (0, 1)"
  by (simp add: chareDistribution_def c_div_def c_mod_def new_partitioner_def
      signed_divide_int_def signed_modulo_int_def)

text \<open>
  C10, amended: on at least one PE and for a non-negative number of chares,
  \<open>chareDistribution\<close> always returns, its chunk size being the integer quotient
  \<open>m_nchare / CkNumPes()\<close>; \<open>pe\<close> divides by that quotient, so it returns a PE in
  \<open>[0, CkNumPes())\<close> for a chare ID exactly when \<open>m_nchare \<ge> CkNumPes()\<close>; with
  fewer chares than PEs the quotient is zero and \<open>pe\<close> is a division by zero.
\<close>

theorem pe_total_iff_enough_chares:
  assumes "1 \<le> CkNumPes s" "0 \<le> m_nchare s" "0 \<le> u"
  shows "(\<exists>mynchare. chareDistribution s = Inr (m_nchare s div CkNumPes s, mynchare)) \<and>
         ((\<exists>p. pe s u = Inr p \<and> 0 \<le> p \<and> p < CkNumPes s) \<longleftrightarrow> CkNumPes s \<le> m_nchare s) \<and>
         (m_nchare s < CkNumPes s \<longrightarrow>
            m_nchare s div CkNumPes s = 0 \<and> pe s u = Inl DivisionByZero)"
proof (intro conjI impI)
  show "\<exists>mynchare. chareDistribution s = Inr (m_nchare s div CkNumPes s, mynchare)"
    using assms by (simp add: chareDistribution_total)
next
  show "(\<exists>p. pe s u = Inr p \<and> 0 \<le> p \<and> p < CkNumPes s) \<longleftrightarrow> CkNumPes s \<le> m_nchare s"
  proof (cases "CkNumPes s \<le> m_nchare s")
    case True
    then show ?thesis using assms pe_in_range [of s u] by simp
  next
    case False
    then have "pe s u = Inl DivisionByZero" using assms by (simp add: pe_div_zero)
    then show ?thesis using False by simp
  qed
next
  assume "m_nchare s < CkNumPes s"
  then show "m_nchare s div CkNumPes s = 0"
    using assms by simp
next
  assume "m_nchare s < CkNumPes s"
  then show "pe s u = Inl DivisionByZero" using assms by (simp add: pe_div_zero)
qed

theorem pe_total_iff_enough_chares_witness:
  "pe ((new_partitioner 0 2)\<lparr>m_nchare := 1\<rparr>) 0 = Inl DivisionByZero \<and>
   (\<exists>p. pe ((new_partitioner 0 2)\<lparr>m_nchare := 4\<rparr>) 3 = Inr p \<and> 0 \<le> p \<and> p < 2)"
  using pe_total_iff_enough_chares [of "(new_partitioner 0 2)\<lparr>m_nchare := 1\<rparr>" 0]
    pe_total_iff_enough_chares [of "(new_partitioner 0 2)\<lparr>m_nchare := 4\<rparr>" 3]
  by (simp add: new_partitioner_def)

subsection \<open>\<open>chareNodes\<close>\<close>

lemma set_update_subset: "set (AList.update k v al) \<subseteq> insert (k, v) (set al)"
  by (induction al) auto

lemma nodes_at_categorize:
  "nodes_at (categorize tet che e nodes) u =
     (if to_int (che ! e) = u then nodes_at nodes u @ element_nodes tet e else nodes_at nodes u)"
  by (simp add: categorize_def nodes_at_def Let_def update_conv')

lemma keys_categorize:
  "fst ` set (categorize tet che e nodes) = insert (to_int (che ! e)) (fst ` set nodes)"
  by (simp add: categorize_def Let_def dom_update)

lemma nodes_at_fold:
  "nodes_at (fold (categorize tet che) es nodes) u =
     nodes_at nodes u @ concat (map (element_nodes tet) (filter (\<lambda>e. to_int (che ! e) = u) es))"
  by (induction es arbitrary: nodes) (simp_all add: nodes_at_categorize)

lemma keys_fold:
  "fst ` set (fold (categorize tet che) es nodes) =
     fst ` set nodes \<union> (\<lambda>e. to_int (che ! e)) ` set es"
  by (induction es arbitrary: nodes) (auto simp: keys_categorize)

lemma map_of_fold:
  "map_of (fold (categorize tet che) es []) u =
     (if u \<in> (\<lambda>e. to_int (che ! e)) ` set es
      then Some (concat (map (element_nodes tet) (filter (\<lambda>e. to_int (che ! e) = u) es)))
      else None)"
proof (cases "u \<in> (\<lambda>e. to_int (che ! e)) ` set es")
  case True
  then have "u \<in> fst ` set (fold (categorize tet che) es [])" by (simp add: keys_fold)
  then obtain c where c: "map_of (fold (categorize tet che) es []) u = Some c"
    by (metis domD dom_map_of_conv_image_fst)
  then have "nodes_at (fold (categorize tet che) es []) u = c" by (simp add: nodes_at_def)
  moreover have "nodes_at ([] :: (int \<times> nat list) list) u = []" by (simp add: nodes_at_def)
  ultimately have "c = concat (map (element_nodes tet) (filter (\<lambda>e. to_int (che ! e) = u) es))"
    using nodes_at_fold [of tet che es "[]" u] by simp
  then show ?thesis using True c by simp
next
  case False
  then have "u \<notin> fst ` set (fold (categorize tet che) es [])" by (simp add: keys_fold)
  then have "map_of (fold (categorize tet che) es []) u = None"
    by (simp add: map_of_eq_None_iff)
  then show ?thesis using False by simp
qed

lemma length_element_nodes: "length (element_nodes tet e) = 4"
  by (simp add: element_nodes_def)

lemma nodes_at_ok:
  assumes "groups_ok nodes"
  shows "4 dvd length (nodes_at nodes k)"
proof (cases "map_of nodes k")
  case None
  then show ?thesis by (simp add: nodes_at_def)
next
  case (Some c)
  then have "(k, c) \<in> set nodes" by (rule map_of_SomeD)
  then have "4 dvd length c" using assms by (auto simp: groups_ok_def list_all_iff)
  then show ?thesis using Some by (simp add: nodes_at_def)
qed

lemma groups_ok_categorize:
  assumes "groups_ok nodes"
  shows "groups_ok (categorize tet che e nodes)"
proof -
  let ?k = "to_int (che ! e)"
  let ?v = "nodes_at nodes ?k @ element_nodes tet e"
  have "4 dvd length ?v \<and> 4 \<le> length ?v"
    using nodes_at_ok [OF assms, of ?k] by (simp add: length_element_nodes)
  moreover have "set (categorize tet che e nodes) \<subseteq> insert (?k, ?v) (set nodes)"
    by (simp add: categorize_def Let_def set_update_subset)
  ultimately show ?thesis
    using assms by (auto simp: groups_ok_def list_all_iff)
qed

lemma groups_ok_fold: "groups_ok nodes \<Longrightarrow> groups_ok (fold (categorize tet che) es nodes)"
  by (induction es arbitrary: nodes) (simp_all add: groups_ok_categorize)

lemma groups_ok_nonempty: "groups_ok nodes \<Longrightarrow> \<not> list_ex (\<lambda>c. snd c = []) nodes"
  by (auto simp: groups_ok_def list_all_iff list_ex_iff)

lemma fold_categorize_nonempty: "es \<noteq> [] \<Longrightarrow> fold (categorize tet che) es nodes \<noteq> []"
proof -
  assume "es \<noteq> []"
  then have "fst ` set (fold (categorize tet che) es nodes) \<noteq> {}" by (simp add: keys_fold)
  then show ?thesis by auto
qed

text \<open>
  C9: for every input \<open>che\<close>, \<open>chareNodes\<close> never fails with the overdecomposition
  error, and every node list of a map it returns has a length that is at least 4
  and a multiple of 4: an entry is created only for the chare of some element and
  receives that element's four node IDs at once.
\<close>

theorem chareNodes_never_overdecomposed:
  "chareNodes s che \<noteq> Inl Overdecomposition \<and>
   (\<forall>nodes. chareNodes s che = Inr nodes \<longrightarrow>
      (\<forall>c \<in> set nodes. 4 \<le> length (snd c) \<and> 4 dvd length (snd c)))"
proof -
  define N where "N = fold (categorize (m_tetinpoel s) che) [0..<length che] []"
  have ok: "groups_ok N"
    unfolding N_def by (rule groups_ok_fold) (simp add: groups_ok_def)
  have u: "chareNodes s che =
     (if length che \<noteq> length (m_gelemid s) then Inl AssertFailed
      else if length che \<noteq> length (m_tetinpoel s) div 4 then Inl AssertFailed
      else if N = [] then Inl AssertFailed
      else if list_ex (\<lambda>c. snd c = []) N then Inl Overdecomposition
      else Inr N)"
    by (simp add: chareNodes_def Let_def N_def)
  have "chareNodes s che \<noteq> Inl Overdecomposition"
    unfolding u using groups_ok_nonempty [OF ok] by simp
  moreover have "\<forall>nodes. chareNodes s che = Inr nodes \<longrightarrow>
      (\<forall>c \<in> set nodes. 4 \<le> length (snd c) \<and> 4 dvd length (snd c))"
    unfolding u using ok by (auto simp: groups_ok_def list_all_iff split: if_splits)
  ultimately show ?thesis by simp
qed

theorem chareNodes_never_overdecomposed_witness:
  "chareNodes two_tets [0, 1] = Inr [(0, [0, 1, 2, 3]), (1, [1, 2, 3, 4])] \<and>
   chareNodes two_tets [0, 1] \<noteq> Inl Overdecomposition"
proof -
  have "chareNodes two_tets [0, 1] = Inr [(0, [0, 1, 2, 3]), (1, [1, 2, 3, 4])]"
    by code_simp
  then show ?thesis
    using chareNodes_never_overdecomposed [of two_tets "[0, 1]"] by simp
qed

text \<open>
  C7: when the size assertions of \<open>chareNodes\<close> hold and there is an element, the
  map built by the loop holds, under each chare, the four node IDs of every
  element that \<open>che\<close> assigns to that chare, in element order, and nothing under
  any other chare; \<open>chareNodes\<close> returns that map, and fails with the
  overdecomposition error exactly when some node list of that map is empty.
\<close>

theorem chareNodes_contract:
  assumes "length che = length (m_gelemid s)" "length che = length (m_tetinpoel s) div 4"
    "che \<noteq> []"
  shows "(\<forall>u. map_of (fold (categorize (m_tetinpoel s) che) [0..<length che] []) u =
            (if \<exists>e<length che. to_int (che ! e) = u
             then Some (concat (map (element_nodes (m_tetinpoel s))
                                    (filter (\<lambda>e. to_int (che ! e) = u) [0..<length che])))
             else None)) \<and>
         chareNodes s che =
           (if \<exists>c \<in> set (fold (categorize (m_tetinpoel s) che) [0..<length che] []). snd c = []
            then Inl Overdecomposition
            else Inr (fold (categorize (m_tetinpoel s) che) [0..<length che] []))"
proof -
  have i: "\<And>u. (u \<in> (\<lambda>e. to_int (che ! e)) ` set [0..<length che]) = (\<exists>e<length che. to_int (che ! e) = u)"
    by auto
  define N where "N = fold (categorize (m_tetinpoel s) che) [0..<length che] []"
  have "[0..<length che] \<noteq> []" using assms(3) by simp
  then have ne: "N \<noteq> []"
    unfolding N_def by (rule fold_categorize_nonempty)
  have u: "chareNodes s che =
     (if length che \<noteq> length (m_gelemid s) then Inl AssertFailed
      else if length che \<noteq> length (m_tetinpoel s) div 4 then Inl AssertFailed
      else if N = [] then Inl AssertFailed
      else if list_ex (\<lambda>c. snd c = []) N then Inl Overdecomposition
      else Inr N)"
    by (simp add: chareNodes_def Let_def N_def)
  have "chareNodes s che = (if \<exists>c \<in> set N. snd c = [] then Inl Overdecomposition else Inr N)"
    unfolding u using assms(1,2) ne by (simp add: list_ex_iff)
  moreover have "\<forall>u. map_of N u =
            (if \<exists>e<length che. to_int (che ! e) = u
             then Some (concat (map (element_nodes (m_tetinpoel s))
                                    (filter (\<lambda>e. to_int (che ! e) = u) [0..<length che])))
             else None)"
    unfolding N_def map_of_fold i by simp
  ultimately show ?thesis unfolding N_def by blast
qed

theorem chareNodes_contract_witness:
  "chareNodes two_tets [1, 1] = Inr [(1, [0, 1, 2, 3, 1, 2, 3, 4])] \<and>
   map_of (fold (categorize (m_tetinpoel two_tets) [1, 1]) [0..<length [1, 1 :: nat]] []) 1 =
     Some (element_nodes (m_tetinpoel two_tets) 0 @ element_nodes (m_tetinpoel two_tets) 1)"
proof -
  have "chareNodes two_tets [1, 1] = Inr [(1, [0, 1, 2, 3, 1, 2, 3, 4])]"
    by code_simp
  moreover have
    "map_of (fold (categorize (m_tetinpoel two_tets) [1, 1]) [0..<length [1, 1 :: nat]] []) 1 =
       Some (element_nodes (m_tetinpoel two_tets) 0 @ element_nodes (m_tetinpoel two_tets) 1)"
    by code_simp
  moreover have h: "length [1, 1 :: nat] = length (m_gelemid two_tets)"
      "length [1, 1 :: nat] = length (m_tetinpoel two_tets) div 4" "[1, 1 :: nat] \<noteq> []"
    by (simp_all add: two_tets_def new_partitioner_def)
  ultimately show ?thesis
    using chareNodes_contract [OF h] by blast
qed

subsection \<open>\<open>flatten\<close>\<close>

lemma distinct_remdups_adj_sorted: "sorted (xs :: nat list) \<Longrightarrow> distinct (remdups_adj xs)"
  by (induction xs rule: remdups_adj.induct) (auto split: if_splits)

lemma unique_props: "distinct (unique xs) \<and> sorted (unique xs) \<and> set (unique xs) = set xs"
  by (simp add: unique_def distinct_remdups_adj_sorted)

lemma flatten_unique:
  assumes "flatten s = Inr (s', eff)"
  shows "distinct (m_id s') \<and> sorted (m_id s') \<and>
         set (m_id s') = set (m_id s) \<union> (\<Union>x \<in> set (m_node s). set (snd x)) \<and>
         m_node s' = m_node s \<and> m_newid s' = m_newid s \<and> m_reordered s' = m_reordered s \<and>
         m_chcid s' = m_chcid s"
proof -
  have u: "set (concat (map snd (m_node s))) = (\<Union>x \<in> set (m_node s). set (snd x))"
    by simp
  have "s' = s\<lparr>m_id := unique (m_id s @ concat (map snd (m_node s)))\<rparr>"
    using assms by (auto simp: flatten_def Let_def split: sum.splits prod.splits if_splits)
  then show ?thesis
    using u by (simp add: unique_props)
qed

subsection \<open>\<open>cost\<close>\<close>





















subsection \<open>\<open>reordered\<close>\<close>

lemma roundtrip_update:
  assumes "roundtrip newid m S" "map_of newid p = Some v" "inj_on (map_of newid) (insert p S)"
  shows "roundtrip newid (AList.update v p m) (insert p S)"
  unfolding roundtrip_def
proof
  fix q assume q: "q \<in> insert p S"
  show "\<exists>w. map_of newid q = Some w \<and> map_of (AList.update v p m) w = Some q"
  proof (cases "q = p")
    case True
    then show ?thesis using assms(2) by (simp add: update_conv')
  next
    case False
    then have "q \<in> S" using q by simp
    then obtain w where w: "map_of newid q = Some w" "map_of m w = Some q"
      using assms(1) by (auto simp: roundtrip_def)
    have "w \<noteq> v"
    proof
      assume "w = v"
      then have "map_of newid q = map_of newid p" using w assms(2) by simp
      then have "q = p" using inj_onD [OF assms(3), of q p] q by blast
      then show False using False by simp
    qed
    then show ?thesis using w by (simp add: update_conv')
  qed
qed

lemma chcid_chare_roundtrip:
  "chcid_chare newid ps m = Inr m' \<Longrightarrow> roundtrip newid m S \<Longrightarrow>
   inj_on (map_of newid) (S \<union> set ps) \<Longrightarrow> roundtrip newid m' (S \<union> set ps)"
proof (induction ps arbitrary: m S)
  case Nil
  then show ?case by simp
next
  case (Cons p ps)
  from Cons.prems(1) obtain v where v: "map_of newid p = Some v"
    and r: "chcid_chare newid ps (AList.update v p m) = Inr m'"
    by (auto simp: val_find_def split: option.splits sum.splits)
  have i: "inj_on (map_of newid) (insert p S)"
    using Cons.prems(3) by (rule inj_on_subset) auto
  have "roundtrip newid (AList.update v p m) (insert p S)"
    using Cons.prems(2) v i by (rule roundtrip_update)
  moreover have "inj_on (map_of newid) (insert p S \<union> set ps)"
    using Cons.prems(3) by simp
  ultimately have "roundtrip newid m' (insert p S \<union> set ps)"
    using r Cons.IH by blast
  then show ?case by simp
qed

lemma chcid_at_update:
  "chcid_at (AList.update k m chcid) c = (if c = k then m else chcid_at chcid c)"
  by (simp add: chcid_at_def update_conv')

lemma chcid_loop_roundtrip:
  "chcid_loop newid cs chcid = Inr chcid' \<Longrightarrow> roundtrip newid (chcid_at chcid c) S \<Longrightarrow>
   inj_on (map_of newid) (S \<union> (\<Union>x \<in> set cs. set (snd x))) \<Longrightarrow>
   roundtrip newid (chcid_at chcid' c) (S \<union> (\<Union>x \<in> {x \<in> set cs. fst x = c}. set (snd x)))"
proof (induction cs arbitrary: chcid S)
  case Nil
  then show ?case by simp
next
  case (Cons x cs)
  from Cons.prems(1) obtain m where m: "chcid_chare newid (snd x) (chcid_at chcid (fst x)) = Inr m"
    and r: "chcid_loop newid cs (AList.update (fst x) m chcid) = Inr chcid'"
    by (auto split: sum.splits)
  show ?case
  proof (cases "fst x = c")
    case True
    have "inj_on (map_of newid) (S \<union> set (snd x))"
      using Cons.prems(3) by (rule inj_on_subset) auto
    then have "roundtrip newid m (S \<union> set (snd x))"
      using m Cons.prems(2) True chcid_chare_roundtrip by blast
    then have a: "roundtrip newid (chcid_at (AList.update (fst x) m chcid) c) (S \<union> set (snd x))"
      using True by (simp add: chcid_at_update)
    have b: "inj_on (map_of newid) ((S \<union> set (snd x)) \<union> (\<Union>x \<in> set cs. set (snd x)))"
      using Cons.prems(3) by (simp add: Un_assoc)
    have "roundtrip newid (chcid_at chcid' c)
            ((S \<union> set (snd x)) \<union> (\<Union>x \<in> {x \<in> set cs. fst x = c}. set (snd x)))"
      using r a b by (rule Cons.IH)
    moreover have "(S \<union> set (snd x)) \<union> (\<Union>x \<in> {x \<in> set cs. fst x = c}. set (snd x)) =
        S \<union> (\<Union>y \<in> {y \<in> set (x # cs). fst y = c}. set (snd y))"
      using True by auto
    ultimately show ?thesis by simp
  next
    case False
    have a: "roundtrip newid (chcid_at (AList.update (fst x) m chcid) c) S"
      using False Cons.prems(2) by (simp add: chcid_at_update)
    have b: "inj_on (map_of newid) (S \<union> (\<Union>x \<in> set cs. set (snd x)))"
      using Cons.prems(3) by (rule inj_on_subset) auto
    have "roundtrip newid (chcid_at chcid' c)
            (S \<union> (\<Union>x \<in> {x \<in> set cs. fst x = c}. set (snd x)))"
      using r a b by (rule Cons.IH)
    moreover have "(\<Union>x \<in> {x \<in> set cs. fst x = c}. set (snd x)) =
        (\<Union>y \<in> {y \<in> set (x # cs). fst y = c}. set (snd y))"
      using False by auto
    ultimately show ?thesis by simp
  qed
qed

lemma bounds_fields:
  "bounds s = Inr (s', eff) \<Longrightarrow>
     m_chcid s' = m_chcid s \<and> m_newid s' = m_newid s \<and> m_reordered s' = m_reordered s \<and>
     m_node s' = m_node s \<and> m_id s' = m_id s"
  by (auto simp: bounds_def lower_def Let_def split: sum.splits if_splits)

lemma reordered_chcid:
  assumes "reordered s = Inr (s', eff)"
  shows "chcid_loop (m_newid s) (m_node s) (m_chcid s) = Inr (m_chcid s') \<and>
         m_newid s' = m_newid s \<and> m_reordered s' = m_reordered s"
  using assms by (auto simp: reordered_def split: sum.splits dest!: bounds_fields)

lemma reordered_inverse:
  assumes "reordered s = Inr (s', eff)"
    and "inj_on (map_of (m_newid s)) (\<Union>x \<in> set (m_node s). set (snd x))"
    and "(c, ps) \<in> set (m_node s)" and "p \<in> set ps"
  shows "\<exists>m v. map_of (m_chcid s') c = Some m \<and> map_of (m_newid s) p = Some v \<and>
               map_of m v = Some p"
proof -
  have l: "chcid_loop (m_newid s) (m_node s) (m_chcid s) = Inr (m_chcid s')"
    using assms(1) by (simp add: reordered_chcid)
  have "roundtrip (m_newid s) (chcid_at (m_chcid s) c) {}" by (simp add: roundtrip_def)
  moreover have "inj_on (map_of (m_newid s)) ({} \<union> (\<Union>x \<in> set (m_node s). set (snd x)))"
    using assms(2) by simp
  ultimately have "roundtrip (m_newid s) (chcid_at (m_chcid s') c)
      ({} \<union> (\<Union>x \<in> {x \<in> set (m_node s). fst x = c}. set (snd x)))"
    using l chcid_loop_roundtrip by blast
  moreover have "p \<in> (\<Union>x \<in> {x \<in> set (m_node s). fst x = c}. set (snd x))"
    using assms(3,4) by force
  ultimately obtain v where v: "map_of (m_newid s) p = Some v"
      "map_of (chcid_at (m_chcid s') c) v = Some p"
    by (auto simp: roundtrip_def)
  then obtain m where "map_of (m_chcid s') c = Some m" "map_of m v = Some p"
    by (cases "map_of (m_chcid s') c") (simp_all add: chcid_at_def)
  then show ?thesis using v by blast
qed

text \<open>
  C6: when \<open>reordered\<close> returns and the renumbering \<open>m_newid\<close> maps the old node
  IDs of the chares of the PE to distinct new IDs, then for every chare \<open>c\<close> of
  \<open>m_node\<close> and every old node ID \<open>p\<close> of that chare (before the update in
  place), the inverse map \<open>m_chcid[c]\<close> exists and maps the new ID \<open>m_newid[p]\<close>
  back to \<open>p\<close>.
\<close>

theorem reordered_roundtrip:
  assumes "reordered s = Inr (s', eff)"
    and "inj_on (map_of (m_newid s)) (\<Union>x \<in> set (m_node s). set (snd x))"
    and "(c, ps) \<in> set (m_node s)" and "p \<in> set ps"
  shows "\<exists>m v. map_of (m_chcid s') c = Some m \<and> map_of (m_newid s) p = Some v \<and>
               map_of m v = Some p"
  using assms by (rule reordered_inverse)

theorem reordered_roundtrip_witness:
  "reordered pe1_assigned = Inr (pe1_done, [Sdag Trigger_upper]) \<and>
   (\<exists>m v. map_of (m_chcid pe1_done) 1 = Some m \<and> map_of (m_newid pe1_assigned) 2 = Some v \<and>
          map_of m v = Some 2)"
proof -
  have r: "reordered pe1_assigned = Inr (pe1_done, [Sdag Trigger_upper])"
    by code_simp
  have i: "inj_on (map_of (m_newid pe1_assigned)) (\<Union>x \<in> set (m_node pe1_assigned). set (snd x))"
    by (simp add: pe1_assigned_def pe1_flat_def new_partitioner_def)
  have n: "(1, [1, 2, 3, 4]) \<in> set (m_node pe1_assigned)"
    by (simp add: pe1_assigned_def pe1_flat_def new_partitioner_def)
  show ?thesis
    using r reordered_roundtrip [OF r i n, of 2] by simp
qed

subsection \<open>\<open>bounds\<close> and \<open>lower\<close>\<close>

lemma fold_max_shift: "max (fold max ks a) (u::nat) = fold max ks (max a u)"
  by (induction ks arbitrary: a) (simp_all add: max.assoc max.commute max.left_commute)

lemma fold_largest:
  "fst (fold (\<lambda>it largest. if fst largest < fst it then it else largest) rest (x :: nat \<times> nat)) =
     fold max (map fst rest) (fst x)"
proof (induction rest arbitrary: x)
  case Nil
  then show ?case by simp
next
  case (Cons a rest)
  have "fst (if fst x < fst a then a else x) = max (fst a) (fst x)" by (simp add: max_def)
  then show ?case using Cons [of "if fst x < fst a then a else x"] by simp
qed

lemma max_element_key:
  "m \<noteq> [] \<Longrightarrow> \<exists>x. max_element m = Inr x \<and> max (fst x) u = fold max (map fst m) u"
proof (cases m)
  case Nil
  assume "m \<noteq> []"
  then show ?thesis using Nil by simp
next
  case (Cons x0 rest)
  have "max (fold max (map fst rest) (fst x0)) u = fold max (map fst rest) (max (fst x0) u)"
    by (rule fold_max_shift)
  then show ?thesis using Cons by (simp add: max_element_def fold_largest)
qed

lemma bounds_loop_max:
  "\<forall>c \<in> set cs. snd c \<noteq> [] \<Longrightarrow>
     bounds_loop cs u = Inr (fold max (concat (map (\<lambda>c. map fst (snd c)) cs)) u)"
proof (induction cs arbitrary: u)
  case Nil
  then show ?case by simp
next
  case (Cons c cs)
  then have "snd c \<noteq> []" by simp
  then obtain x where x: "max_element (snd c) = Inr x"
      "max (fst x) u = fold max (map fst (snd c)) u"
    using max_element_key by blast
  have "(if fst x > u then fst x else u) = max (fst x) u" by (simp add: max_def)
  then show ?case using x Cons by simp
qed

lemma fold_max_Max: "fold max ks (u::nat) = Max (set (u # ks))"
  by (rule Max.set_eq_fold [symmetric])

lemma bounds_result:
  assumes "\<forall>c \<in> set (m_chcid s). snd c \<noteq> []"
  shows "bounds s =
     Inr (s\<lparr>m_upper := (if CkMyPe s = CkNumPes s - 1
                         then wrap64 (Max (set (0 # contributed_newids s)) + 1)
                         else Max (set (0 # contributed_newids s))),
            m_lower := (if CkMyPe s = 0 then 0 else m_lower s)\<rparr>,
          [Sdag Trigger_upper] @ (if CkMyPe s = 0 then [Sdag Trigger_lower] else []) @
          (if CkMyPe s < CkNumPes s - 1
           then [Send (CkMyPe s + 1)
                   (Lower (if CkMyPe s = CkNumPes s - 1
                           then wrap64 (Max (set (0 # contributed_newids s)) + 1)
                           else Max (set (0 # contributed_newids s))))]
           else []))"
proof -
  have "bounds_loop (m_chcid s) 0 = Inr (Max (set (0 # contributed_newids s)))"
    using bounds_loop_max [OF assms, of 0]
    by (simp only: fold_max_Max contributed_newids_def)
  then show ?thesis
    by (simp add: bounds_def lower_def Let_def)
qed

lemma chcid_chare_total:
  "\<forall>p \<in> set ps. map_of newid p \<noteq> None \<Longrightarrow>
     \<exists>m'. chcid_chare newid ps m = Inr m' \<and> (ps \<noteq> [] \<or> m \<noteq> [] \<longrightarrow> m' \<noteq> [])"
proof (induction ps arbitrary: m)
  case Nil
  then show ?case by simp
next
  case (Cons p ps)
  then obtain v where v: "map_of newid p = Some v" by auto
  have "\<forall>p \<in> set ps. map_of newid p \<noteq> None" using Cons.prems by simp
  from Cons.IH [OF this, of "AList.update v p m"]
  obtain m' where "chcid_chare newid ps (AList.update v p m) = Inr m'" "m' \<noteq> []"
    by auto
  then show ?case using v by (simp add: val_find_def)
qed

lemma chcid_loop_total:
  "\<forall>x \<in> set cs. snd x \<noteq> [] \<and> (\<forall>p \<in> set (snd x). map_of newid p \<noteq> None) \<Longrightarrow>
   \<forall>c \<in> set chcid. snd c \<noteq> [] \<Longrightarrow>
     \<exists>chcid'. chcid_loop newid cs chcid = Inr chcid' \<and> (\<forall>c \<in> set chcid'. snd c \<noteq> [])"
proof (induction cs arbitrary: chcid)
  case Nil
  then show ?case by simp
next
  case (Cons x cs)
  then have "\<forall>p \<in> set (snd x). map_of newid p \<noteq> None" "snd x \<noteq> []" by simp_all
  then obtain m where m: "chcid_chare newid (snd x) (chcid_at chcid (fst x)) = Inr m" "m \<noteq> []"
    using chcid_chare_total [of "snd x" newid "chcid_at chcid (fst x)"] by auto
  have "set (AList.update (fst x) m chcid) \<subseteq> insert (fst x, m) (set chcid)"
    by (rule set_update_subset)
  then have "\<forall>c \<in> set (AList.update (fst x) m chcid). snd c \<noteq> []"
    using m(2) Cons.prems(2) by auto
  then have "\<exists>chcid'. chcid_loop newid cs (AList.update (fst x) m chcid) = Inr chcid' \<and>
      (\<forall>c \<in> set chcid'. snd c \<noteq> [])"
    using Cons by simp
  then show ?case using m(1) by simp
qed

lemma renumber_total:
  "\<forall>p \<in> set ps. map_of newid p \<noteq> None \<Longrightarrow> \<exists>vs. renumber newid ps = Inr vs"
proof (induction ps)
  case Nil
  then show ?case by simp
next
  case (Cons p ps)
  then obtain v vs where "map_of newid p = Some v" "renumber newid ps = Inr vs" by auto
  then show ?case by (simp add: val_find_def)
qed

lemma renumber_node_total:
  "\<forall>x \<in> set cs. \<forall>p \<in> set (snd x). map_of newid p \<noteq> None \<Longrightarrow>
     \<exists>cs'. renumber_node newid cs = Inr cs'"
proof (induction cs)
  case Nil
  then show ?case by simp
next
  case (Cons x cs)
  then obtain vs cs' where "renumber newid (snd x) = Inr vs" "renumber_node newid cs = Inr cs'"
    using renumber_total [of "snd x" newid] by auto
  then show ?case by simp
qed

lemma reordered_total:
  assumes "\<forall>x \<in> set (m_node s). snd x \<noteq> [] \<and> (\<forall>p \<in> set (snd x). map_of (m_newid s) p \<noteq> None)"
    and "\<forall>p \<in> set (m_id s). map_of (m_newid s) p \<noteq> None"
    and "\<forall>c \<in> set (m_chcid s). snd c \<noteq> []"
  shows "\<exists>s' eff. reordered s = Inr (s', eff)"
proof -
  obtain chcid where c: "chcid_loop (m_newid s) (m_node s) (m_chcid s) = Inr chcid"
      "\<forall>c \<in> set chcid. snd c \<noteq> []"
    using chcid_loop_total [OF assms(1) assms(3)] by auto
  obtain node where n: "renumber_node (m_newid s) (m_node s) = Inr node"
    using renumber_node_total [of "m_node s" "m_newid s"] assms(1) by auto
  obtain ids where i: "renumber (m_newid s) (m_id s) = Inr ids"
    using renumber_total [OF assms(2)] by auto
  have "\<forall>c \<in> set (m_chcid (s\<lparr>m_chcid := chcid, m_node := node, m_id := ids\<rparr>)). snd c \<noteq> []"
    using c(2) by simp
  then show ?thesis
    using c(1) n i by (simp add: reordered_def bounds_result)
qed
















subsection \<open>\<open>reorder\<close>\<close>

lemma own_always: "own comm p"
  by (simp add: own_def any_of_def cbegin_def)

text \<open>Over the whole range, up to \<open>cend\<close>, \<open>any_of\<close> does test every entry.\<close>

lemma any_of_whole_range:
  "any_of xs (cbegin xs) (cend xs) P = (\<exists>x \<in> set xs. P x)"
  by (simp add: any_of_def cbegin_def cend_def list_ex_iff)

lemma assign_loop_untouched:
  "\<not> (p \<in> set ps \<and> ownp p) \<Longrightarrow>
     map_of (fst (snd (assign_loop ownp ps n newid r))) p = map_of newid p"
  by (induction ps arbitrary: n newid r) (auto simp: update_conv')

lemma wrap64_mod: "wrap64 x = x mod 2 ^ 64"
  by (simp add: wrap64_def unat_of_nat)

lemma wrap64_id: "x < 2 ^ 64 \<Longrightarrow> wrap64 x = x"
  by (simp add: wrap64_mod)

lemma wrap64_less: "wrap64 x < 2 ^ 64"
  by (simp add: wrap64_mod)

lemma wrap64_add: "wrap64 (wrap64 x + y) = wrap64 (x + y)"
  by (simp add: wrap64_mod mod_add_left_eq)

lemma assign_loop_counters:
  "n < 2 ^ 64 \<Longrightarrow> r < 2 ^ 64 \<Longrightarrow>
   fst (assign_loop ownp ps n newid r) = wrap64 (n + length (filter ownp ps)) \<and>
   snd (snd (assign_loop ownp ps n newid r)) = wrap64 (r + length (filter ownp ps))"
proof (induction ps arbitrary: n newid r)
  case Nil
  then show ?case by (simp add: wrap64_id)
next
  case (Cons p ps)
  show ?case
  proof (cases "ownp p")
    case True
    have "fst (assign_loop ownp ps (wrap64 (n + 1)) (AList.update p n newid) (wrap64 (r + 1))) =
            wrap64 (wrap64 (n + 1) + length (filter ownp ps)) \<and>
          snd (snd (assign_loop ownp ps (wrap64 (n + 1)) (AList.update p n newid) (wrap64 (r + 1)))) =
            wrap64 (wrap64 (r + 1) + length (filter ownp ps))"
      by (rule Cons.IH) (rule wrap64_less)+
    then show ?thesis using True by (simp add: wrap64_add)
  next
    case False
    then show ?thesis using Cons by simp
  qed
qed

lemma assign_loop_block:
  "distinct ps \<Longrightarrow> n + length (filter ownp ps) \<le> 2 ^ 64 \<Longrightarrow>
     map (map_of (fst (snd (assign_loop ownp ps n newid r)))) (filter ownp ps) =
     map Some [n..<n + length (filter ownp ps)]"
proof (induction ps arbitrary: n newid r)
  case Nil
  then show ?case by simp
next
  case (Cons p ps)
  let ?k = "length (filter ownp ps)"
  show ?case
  proof (cases "ownp p")
    case True
    let ?R = "fst (snd (assign_loop ownp ps (wrap64 (n + 1)) (AList.update p n newid) (wrap64 (r + 1))))"
    have "map_of ?R p = map_of (AList.update p n newid) p"
      using Cons.prems by (simp add: assign_loop_untouched)
    then have h: "map_of ?R p = Some n" by (simp add: update_conv')
    have t: "map (map_of ?R) (filter ownp ps) = map Some [Suc n..<Suc n + ?k]"
    proof (cases "?k = 0")
      case True
      then show ?thesis by simp
    next
      case False
      then have kp: "1 \<le> ?k" by (cases "filter ownp ps") simp_all
      have "n + Suc ?k \<le> 2 ^ 64" using Cons.prems(2) \<open>ownp p\<close> by simp
      then have "n + 1 < 2 ^ 64" using kp by linarith
      then have w: "wrap64 (n + 1) = Suc n" by (simp add: wrap64_id)
      have "map (map_of ?R) (filter ownp ps) = map Some [Suc n..<Suc n + ?k]"
        unfolding w using Cons.prems \<open>ownp p\<close> by (intro Cons.IH) simp_all
      then show ?thesis .
    qed
    have "[n..<n + Suc ?k] = n # [Suc n..<n + Suc ?k]"
      by (rule upt_conv_Cons) simp
    then have "[n..<n + length (filter ownp (p # ps))] = n # [Suc n..<Suc n + ?k]"
      using True by simp
    then show ?thesis using True h t by simp
  next
    case False
    then show ?thesis using Cons by simp
  qed
qed

lemma reorder_fields:
  assumes "reorder n comm s = Inr (s', eff)"
  shows "m_newid s' = fst (snd (assign_loop (own comm) (m_id s) n (m_newid s) (m_reordered s))) \<and>
         m_reordered s' = snd (snd (assign_loop (own comm) (m_id s) n (m_newid s) (m_reordered s)))"
  using assms
  by (auto simp: reorder_def Let_def split: if_splits sum.splits dest!: reordered_chcid)

text \<open>
  On a PE as \<open>flatten\<close> leaves it, with non-empty node lists, \<open>reorder\<close> returns,
  having built the inverse maps at once, and these undo its renumbering.
\<close>

lemma assign_loop_all:
  assumes "distinct ps" "n + length ps \<le> 2 ^ 64"
  shows "inj_on (map_of (fst (snd (assign_loop (own comm) ps n newid r)))) (set ps) \<and>
         (\<forall>p \<in> set ps. map_of (fst (snd (assign_loop (own comm) ps n newid r))) p \<noteq> None)"
proof -
  let ?f = "map_of (fst (snd (assign_loop (own comm) ps n newid r)))"
  have f: "filter (own comm) ps = ps" by (simp add: own_always)
  have m: "map ?f ps = map Some [n..<n + length ps]"
    using assign_loop_block [OF assms(1), of n "own comm" newid r] assms(2) by (simp add: f)
  have "distinct (map ?f ps)" unfolding m by (simp add: distinct_map)
  then have "inj_on ?f (set ps)" by (simp add: distinct_map)
  moreover have "\<forall>p \<in> set ps. ?f p \<noteq> None"
  proof
    fix p assume "p \<in> set ps"
    then have "?f p \<in> set (map ?f ps)" by simp
    then show "?f p \<noteq> None" unfolding m by auto
  qed
  ultimately show ?thesis by simp
qed

lemma reorder_returns_with_roundtrip:
  assumes "distinct (m_id s)" "m_reordered s = 0"
    and "(\<Union>x \<in> set (m_node s). set (snd x)) \<subseteq> set (m_id s)"
    and "\<forall>x \<in> set (m_node s). snd x \<noteq> []"
    and "\<forall>c \<in> set (m_chcid s). snd c \<noteq> []"
    and "n < 2 ^ 64" "n + length (m_id s) \<le> 2 ^ 64" "length (m_id s) < 2 ^ 64"
  shows "\<exists>s' eff. reorder n comm s = Inr (s', eff) \<and>
     (\<forall>x \<in> set (m_node s). \<forall>p \<in> set (snd x).
        \<exists>m v. map_of (m_chcid s') (fst x) = Some m \<and> map_of (m_newid s') p = Some v \<and>
               map_of m v = Some p)"
proof -
  let ?a = "assign_loop (own comm) (m_id s) n (m_newid s) (m_reordered s)"
  define s1 where "s1 = s\<lparr>m_newid := fst (snd ?a), m_reordered := snd (snd ?a)\<rparr>"
  have al: "inj_on (map_of (m_newid s1)) (set (m_id s))"
      "\<forall>p \<in> set (m_id s). map_of (m_newid s1) p \<noteq> None"
    using assign_loop_all [OF assms(1) assms(7), of comm "m_newid s" "m_reordered s"]
    by (simp_all add: s1_def)
  have cnt: "m_reordered s1 = length (m_id s1)"
    using assms(2,6,8) by (simp add: s1_def assign_loop_counters own_always wrap64_id)
  have nd: "m_node s1 = m_node s" "m_id s1 = m_id s" "m_chcid s1 = m_chcid s"
    by (simp_all add: s1_def)
  have n1: "\<forall>x \<in> set (m_node s1). snd x \<noteq> [] \<and> (\<forall>p \<in> set (snd x). map_of (m_newid s1) p \<noteq> None)"
  proof (intro ballI conjI)
    fix x assume "x \<in> set (m_node s1)"
    then have xs: "x \<in> set (m_node s)" by (simp add: nd)
    show "snd x \<noteq> []" using assms(4) xs by blast
    fix p assume "p \<in> set (snd x)"
    then have "p \<in> set (m_id s)" using assms(3) xs by blast
    then show "map_of (m_newid s1) p \<noteq> None" using al(2) by blast
  qed
  have n2: "\<forall>p \<in> set (m_id s1). map_of (m_newid s1) p \<noteq> None"
    using al(2) by (simp add: nd)
  have n3: "\<forall>c \<in> set (m_chcid s1). snd c \<noteq> []"
    using assms(5) by (simp add: nd)
  obtain s' eff where r: "reordered s1 = Inr (s', eff)"
    using reordered_total [OF n1 n2 n3] by blast
  have "(\<Union>x \<in> set (m_node s1). set (snd x)) \<subseteq> set (m_id s)"
    using assms(3) by (simp add: nd)
  then have inj: "inj_on (map_of (m_newid s1)) (\<Union>x \<in> set (m_node s1). set (snd x))"
    by (rule inj_on_subset [OF al(1)])
  have nid: "m_newid s' = m_newid s1" using r by (simp add: reordered_chcid)
  have rt: "\<forall>x \<in> set (m_node s). \<forall>p \<in> set (snd x).
        \<exists>m v. map_of (m_chcid s') (fst x) = Some m \<and> map_of (m_newid s') p = Some v \<and>
               map_of m v = Some p"
  proof (intro ballI)
    fix x p assume "x \<in> set (m_node s)" "p \<in> set (snd x)"
    then have "(fst x, snd x) \<in> set (m_node s1)" using nd by simp
    then show "\<exists>m v. map_of (m_chcid s') (fst x) = Some m \<and> map_of (m_newid s') p = Some v \<and>
               map_of m v = Some p"
      using reordered_inverse [OF r inj _ \<open>p \<in> set (snd x)\<close>] nid by simp
  qed
  have "reorder n comm s = Inr (s', [Sdag Wait4prep, Sdag Wait4bounds] @
          map (\<lambda>c. Send (fst c) (Request (CkMyPe s) (snd c))) comm @
          [Sdag Trigger_reorderowned_complete] @ eff)"
    using r cnt by (simp add: reorder_def Let_def s1_def)
  then show ?thesis using rt by blast
qed


text \<open>
  C5, as stated: for any base offset \<open>n\<close> the new IDs assigned form the block
  \<open>n, ..., n+k-1\<close>. The counter is a \<open>std::size_t\<close>: started at \<open>2^64 - 1\<close> on
  PE 1, it wraps around after the first ID, and the four IDs get \<open>2^64 - 1\<close>, 0, 1
  and 2.
\<close>

theorem assign_loop_wraps_around: "assign_loop (own pe1_comm) (m_id pe1_flat) 18446744073709551615 (m_newid pe1_flat)
       (m_reordered pe1_flat) =
     (3, [(1, 18446744073709551615), (2, 0), (3, 1), (4, 2)], 4) \<and>
   (0::nat) \<notin> {18446744073709551615..<18446744073709551615 + 4}"
  by (simp add: pe1_flat_def new_partitioner_def own_always wrap64_mod)


text \<open>
  C5, amended: for any communication map \<open>comm\<close> and any base offset \<open>n\<close> with
  \<open>n + k \<le> 2^64\<close>, where \<open>k\<close> is the number of IDs of \<open>m_id\<close> that satisfy \<open>own\<close>,
  on a PE whose \<open>m_id\<close> has no repeated entry, the assignment loop of
  \<open>reorder(n, comm)\<close> gives these \<open>k\<close> IDs, in their order, the new IDs
  \<open>n, n+1, ..., n+k-1\<close>, leaves every other entry of \<open>m_newid\<close> as it was, and
  advances \<open>n\<close> and \<open>m_reordered\<close> by \<open>k\<close> (modulo \<open>2^64\<close>); \<open>reorder\<close> stores that
  \<open>m_newid\<close> and \<open>m_reordered\<close>, sends its requests, and either returns them or,
  when \<open>m_reordered\<close> has reached the size of \<open>m_id\<close>, goes on with \<open>reordered\<close>.
\<close>

theorem reorder_assigns_contiguous_block:
  assumes "distinct (m_id s)" "n < 2 ^ 64" "m_reordered s < 2 ^ 64"
    and "n + length (filter (own comm) (m_id s)) \<le> 2 ^ 64"
  shows "\<exists>newid.
     assign_loop (own comm) (m_id s) n (m_newid s) (m_reordered s) =
       (wrap64 (n + length (filter (own comm) (m_id s))), newid,
        wrap64 (m_reordered s + length (filter (own comm) (m_id s)))) \<and>
     map (map_of newid) (filter (own comm) (m_id s)) =
       map Some [n..<n + length (filter (own comm) (m_id s))] \<and>
     (\<forall>p. p \<notin> set (filter (own comm) (m_id s)) \<longrightarrow> map_of newid p = map_of (m_newid s) p) \<and>
     reorder n comm s =
       (if wrap64 (m_reordered s + length (filter (own comm) (m_id s))) = length (m_id s)
        then (case reordered (s\<lparr>m_newid := newid,
                 m_reordered := wrap64 (m_reordered s + length (filter (own comm) (m_id s)))\<rparr>) of
                Inl e \<Rightarrow> Inl e
              | Inr (s2, eff2) \<Rightarrow> Inr (s2, reorder_effects comm s @ eff2))
        else Inr (s\<lparr>m_newid := newid,
                    m_reordered := wrap64 (m_reordered s + length (filter (own comm) (m_id s)))\<rparr>,
                  reorder_effects comm s)) \<and>
     (\<forall>s' eff. reorder n comm s = Inr (s', eff) \<longrightarrow>
        m_newid s' = newid \<and>
        m_reordered s' = wrap64 (m_reordered s + length (filter (own comm) (m_id s))))"
proof -
  let ?a = "assign_loop (own comm) (m_id s) n (m_newid s) (m_reordered s)"
  let ?k = "length (filter (own comm) (m_id s))"
  have c: "fst ?a = wrap64 (n + ?k)" "snd (snd ?a) = wrap64 (m_reordered s + ?k)"
    using assms(2,3) by (simp_all add: assign_loop_counters)
  then have 1: "?a = (wrap64 (n + ?k), fst (snd ?a), wrap64 (m_reordered s + ?k))"
    by (metis prod.collapse)
  have 2: "map (map_of (fst (snd ?a))) (filter (own comm) (m_id s)) = map Some [n..<n + ?k]"
    using assms(1,4) by (rule assign_loop_block)
  have 3: "\<forall>p. p \<notin> set (filter (own comm) (m_id s)) \<longrightarrow>
              map_of (fst (snd ?a)) p = map_of (m_newid s) p"
    by (simp add: assign_loop_untouched)
  have 4: "reorder n comm s =
       (if wrap64 (m_reordered s + ?k) = length (m_id s)
        then (case reordered (s\<lparr>m_newid := fst (snd ?a),
                 m_reordered := wrap64 (m_reordered s + ?k)\<rparr>) of
                Inl e \<Rightarrow> Inl e
              | Inr (s2, eff2) \<Rightarrow> Inr (s2, reorder_effects comm s @ eff2))
        else Inr (s\<lparr>m_newid := fst (snd ?a), m_reordered := wrap64 (m_reordered s + ?k)\<rparr>,
                  reorder_effects comm s))"
    by (simp add: reorder_def Let_def c(2) reorder_effects_def split: sum.splits prod.splits)
  have 5: "\<forall>s' eff. reorder n comm s = Inr (s', eff) \<longrightarrow>
        m_newid s' = fst (snd ?a) \<and> m_reordered s' = wrap64 (m_reordered s + ?k)"
    using reorder_fields [of n comm s] c(2) by simp
  show ?thesis using 1 2 3 4 5 by blast
qed


theorem reorder_assigns_contiguous_block_witness:
  "assign_loop (own pe1_comm) (m_id pe1_flat) 4 (m_newid pe1_flat) (m_reordered pe1_flat) =
     (8, [(1, 4), (2, 5), (3, 6), (4, 7)], 4) \<and>
   filter (own pe1_comm) (m_id pe1_flat) = [1, 2, 3, 4] \<and>
   reorder 4 pe1_comm pe1_flat =
     Inr (pe1_done,
          [Sdag Wait4prep, Sdag Wait4bounds, Send 0 (Request 1 [1, 2, 3]),
           Sdag Trigger_reorderowned_complete, Sdag Trigger_upper]) \<and>
   m_newid pe1_done = [(1, 4), (2, 5), (3, 6), (4, 7)]"
proof -
  have d: "distinct (m_id pe1_flat)" "(4::nat) < 2 ^ 64" "m_reordered pe1_flat < 2 ^ 64"
      "4 + length (filter (own pe1_comm) (m_id pe1_flat)) \<le> 2 ^ 64"
    by (simp_all add: pe1_flat_def new_partitioner_def own_always)
  have "assign_loop (own pe1_comm) (m_id pe1_flat) 4 (m_newid pe1_flat) (m_reordered pe1_flat) =
     (8, [(1, 4), (2, 5), (3, 6), (4, 7)], 4)"
    by code_simp
  moreover have "filter (own pe1_comm) (m_id pe1_flat) = [1, 2, 3, 4]" by code_simp
  moreover have "reorder 4 pe1_comm pe1_flat =
     Inr (pe1_done,
          [Sdag Wait4prep, Sdag Wait4bounds, Send 0 (Request 1 [1, 2, 3]),
           Sdag Trigger_reorderowned_complete, Sdag Trigger_upper])"
    by code_simp
  moreover have "m_newid pe1_done = [(1, 4), (2, 5), (3, 6), (4, 7)]" by code_simp
  ultimately show ?thesis
    using reorder_assigns_contiguous_block [OF d] by blast
qed

text \<open>
  C2: the claim is that \<open>own(p)\<close> holds exactly when \<open>p\<close> occurs in no ID set of
  \<open>comm\<close>. The code tests the entries of \<open>comm\<close> from \<open>comm.cbegin()\<close> to
  \<open>comm.cbegin()\<close>, an empty range, so \<open>own(p)\<close> holds for every \<open>p\<close> and every
  \<open>comm\<close>: on PE 1, node 1 is listed under PE 0 and is owned all the same.
\<close>

theorem own_ignores_comm:
  "own comm p \<and> List.member (snd (hd pe1_comm)) 1 \<and> own pe1_comm 1"
proof -
  have "List.member (snd (hd pe1_comm)) 1" by code_simp
  then show ?thesis by (simp add: own_always)
qed

text \<open>
  C1: the claim is that a node ID shared by several PEs is given a new ID by
  exactly one of them. On the two PEs sharing nodes 1, 2 and 3, PE 0 assigns them
  the new IDs 1, 2, 3 and PE 1, although it requests them from PE 0, assigns them
  4, 5, 6 itself, counts all its four IDs as reordered and builds its result at
  once; the reply of PE 0 then raises the counter of PE 1 to 7, past the 4 IDs
  it holds.
\<close>

theorem shared_ids_assigned_twice:
  "reorder 0 [] pe0_flat =
     Inr (pe0_done,
          [Sdag Wait4prep, Sdag Wait4bounds, Sdag Trigger_reorderowned_complete,
           Sdag Trigger_upper, Sdag Trigger_lower, Send 1 (Lower 3)]) \<and>
   reorder 4 pe1_comm pe1_flat =
     Inr (pe1_done,
          [Sdag Wait4prep, Sdag Wait4bounds, Send 0 (Request 1 [1, 2, 3]),
           Sdag Trigger_reorderowned_complete, Sdag Trigger_upper]) \<and>
   m_newid pe0_done = [(0, 0), (1, 1), (2, 2), (3, 3)] \<and>
   m_newid pe1_done = [(1, 4), (2, 5), (3, 6), (4, 7)] \<and>
   prepare (fst (request 1 [1, 2, 3] pe0_done)) =
     Inr (pe0_done,
          [Send 1 (Neworder [(1, 1), (2, 2), (3, 3)]), Sdag Wait4prep,
           Sdag Trigger_reorderowned_complete]) \<and>
   neworder [(1, 1), (2, 2), (3, 3)] pe1_done =
     Inr (pe1_done\<lparr>m_newid := [(1, 1), (2, 2), (3, 3), (4, 7)], m_reordered := 7\<rparr>, [])"
proof -
  have "reorder 0 [] pe0_flat =
     Inr (pe0_done,
          [Sdag Wait4prep, Sdag Wait4bounds, Sdag Trigger_reorderowned_complete,
           Sdag Trigger_upper, Sdag Trigger_lower, Send 1 (Lower 3)])"
    by code_simp
  moreover have "reorder 4 pe1_comm pe1_flat =
     Inr (pe1_done,
          [Sdag Wait4prep, Sdag Wait4bounds, Send 0 (Request 1 [1, 2, 3]),
           Sdag Trigger_reorderowned_complete, Sdag Trigger_upper])"
    by code_simp
  moreover have "m_newid pe0_done = [(0, 0), (1, 1), (2, 2), (3, 3)]" by code_simp
  moreover have "m_newid pe1_done = [(1, 4), (2, 5), (3, 6), (4, 7)]" by code_simp
  moreover have "prepare (fst (request 1 [1, 2, 3] pe0_done)) =
     Inr (pe0_done,
          [Send 1 (Neworder [(1, 1), (2, 2), (3, 3)]), Sdag Wait4prep,
           Sdag Trigger_reorderowned_complete])"
    by code_simp
  moreover have "neworder [(1, 1), (2, 2), (3, 3)] pe1_done =
     Inr (pe1_done\<lparr>m_newid := [(1, 1), (2, 2), (3, 3), (4, 7)], m_reordered := 7\<rparr>, [])"
    by code_simp
  ultimately show ?thesis by simp
qed

end
